theory Spec2Isabelle
  imports Complex_Main "HOL-Library.AList" "HOL-Library.Stream"
begin

section \<open>Real-time wireless mesh network simulator: the core of \<open>app.py\<close>\<close>

text \<open>
  The script builds a dictionary of nodes with random positions, marks a random sample
  of them selfish, links every two nodes within transmission range in an undirected
  graph, routes one packet along a least-weight path and walks that path hop by hop.
  Python integers are \<open>int\<close>, node ids are \<open>nat\<close>, a dictionary is an association list
  in insertion order, floats are idealised as \<open>real\<close>, and every exception is a value.
\<close>

subsection \<open>Errors\<close>

datatype py_error = KeyError | ValueError

datatype nx_error = NodeNotFound | NetworkXNoPath

subsection \<open>The random source\<close>

text \<open>
  The module-level generator of \<open>random\<close> is a stream of raw draws that is threaded
  through the run. \<open>random.random()\<close> is a multiple of \<open>2^-53\<close> in \<open>[0,1)\<close>,
  \<open>random.randint(a, b)\<close> (called with \<open>a \<le> b\<close>) is an integer in \<open>[a, b]\<close>, and
  \<open>random.sample\<close> draws positions of a shrinking pool. Every result the library can
  give is the image of some raw draw.
\<close>

type_synonym rng = "nat stream"

definition randbelow :: "nat \<Rightarrow> rng \<Rightarrow> nat \<times> rng" where
  "randbelow n g = (shd g mod n, stl g)"

definition random :: "rng \<Rightarrow> real \<times> rng" where
  "random g = (real (shd g mod 2 ^ 53) / 2 ^ 53, stl g)"

definition randint :: "int \<Rightarrow> int \<Rightarrow> rng \<Rightarrow> int \<times> rng" where
  "randint a b g = (a + int (shd g mod nat (b - a + 1)), stl g)"

fun sample_pool :: "'a list \<Rightarrow> nat \<Rightarrow> rng \<Rightarrow> 'a list \<times> rng" where
  "sample_pool pool 0 g = ([], g)"
| "sample_pool pool (Suc k) g =
     (let (j, g1) = randbelow (length pool) g;
          (rest, g2) = sample_pool (take j pool @ drop (Suc j) pool) k g1
      in (pool ! j # rest, g2))"

text \<open>\<open>random.sample(population, k)\<close> raises \<open>ValueError\<close> when \<open>k\<close> is negative or larger
  than the population.\<close>

definition random_sample :: "'a list \<Rightarrow> int \<Rightarrow> rng \<Rightarrow> py_error + ('a list \<times> rng)" where
  "random_sample population k g =
     (if k < 0 \<or> int (length population) < k then Inl ValueError
      else Inr (sample_pool population (nat k) g))"

subsection \<open>Nodes\<close>

record node =
  x :: int
  y :: int
  power_pct :: int
  trust :: int
  selfish :: bool

type_synonym nodes = "(nat \<times> node) list"

text \<open>\<open>nodes[k]\<close>: a missing key raises \<open>KeyError\<close>.\<close>

definition getitem :: "(nat \<times> 'v) list \<Rightarrow> nat \<Rightarrow> py_error + 'v" where
  "getitem d k = (case map_of d k of None \<Rightarrow> Inl KeyError | Some v \<Rightarrow> Inr v)"

text \<open>The sidebar controls.\<close>

record config =
  num_nodes :: int
  tx_range :: int
  selfish_ratio :: int
  mobility :: bool
  multi_radio :: bool
  multi_channel :: bool

text \<open>Node generation: \<open>for i in range(num_nodes): nodes[i] = {...}\<close>, three draws per node.\<close>

fun generate_loop :: "nat list \<Rightarrow> nodes \<Rightarrow> rng \<Rightarrow> nodes \<times> rng" where
  "generate_loop [] nodes g = (nodes, g)"
| "generate_loop (i # rest) nodes g =
     (let (xi, g1) = randint 0 800 g;
          (yi, g2) = randint 0 500 g1;
          (pw, g3) = randint 70 100 g2
      in generate_loop rest
           (AList.update i \<lparr>x = xi, y = yi, power_pct = pw, trust = 100, selfish = False\<rparr> nodes) g3)"

definition generate_nodes :: "int \<Rightarrow> rng \<Rightarrow> nodes \<times> rng" where
  "generate_nodes n g = generate_loop [0..<nat n] [] g"

subsection \<open>Selfish assignment\<close>

text \<open>\<open>int(num_nodes * selfish_ratio / 100)\<close>: the quotient truncated towards zero.\<close>

definition selfish_count :: "int \<Rightarrow> int \<Rightarrow> int" where
  "selfish_count n r =
     (let q = n * r in if 0 \<le> q then q div 100 else - ((- q) div 100))"

fun mark_selfish :: "nat list \<Rightarrow> nodes \<Rightarrow> rng \<Rightarrow> py_error + (nodes \<times> rng)" where
  "mark_selfish [] nodes g = Inr (nodes, g)"
| "mark_selfish (sn # rest) nodes g =
     (case getitem nodes sn of
        Inl e \<Rightarrow> Inl e
      | Inr _ \<Rightarrow>
          (let nodes1 = AList.map_entry sn (\<lambda>nd. nd\<lparr>selfish := True\<rparr>) nodes;
               (t, g1) = randint 20 60 g;
               nodes2 = AList.map_entry sn (\<lambda>nd. nd\<lparr>trust := t\<rparr>) nodes1
           in mark_selfish rest nodes2 g1))"

definition assign_selfish ::
  "int \<Rightarrow> int \<Rightarrow> nodes \<Rightarrow> rng \<Rightarrow> py_error + (nat list \<times> nodes \<times> rng)" where
  "assign_selfish n r nodes g =
     (case random_sample (map fst nodes) (selfish_count n r) g of
        Inl e \<Rightarrow> Inl e
      | Inr (selfish_nodes, g1) \<Rightarrow>
          (case mark_selfish selfish_nodes nodes g1 of
             Inl e \<Rightarrow> Inl e
           | Inr (nodes', g2) \<Rightarrow> Inr (selfish_nodes, nodes', g2)))"

subsection \<open>The graph\<close>

text \<open>
  \<open>nx.Graph\<close> keeps a dictionary of adjacency dictionaries. \<open>add_edge(u, v, **attr)\<close>
  creates \<open>u\<close> and \<open>v\<close> when they are absent and stores the attributes in both
  directions, so a node is in the graph only once an edge touches it.
\<close>

record edge_attr =
  weight :: real
  capacity :: int

type_synonym graph = "(nat \<times> (nat \<times> edge_attr) list) list"

definition has_node :: "graph \<Rightarrow> nat \<Rightarrow> bool" where
  "has_node G u = (map_of G u \<noteq> None)"

definition adj :: "graph \<Rightarrow> nat \<Rightarrow> (nat \<times> edge_attr) list" where
  "adj G u = (case map_of G u of None \<Rightarrow> [] | Some nbrs \<Rightarrow> nbrs)"

definition edge :: "graph \<Rightarrow> nat \<Rightarrow> nat \<Rightarrow> edge_attr option" where
  "edge G u v = map_of (adj G u) v"

definition add_node :: "graph \<Rightarrow> nat \<Rightarrow> graph" where
  "add_node G u = (if has_node G u then G else AList.update u [] G)"

definition add_edge :: "graph \<Rightarrow> nat \<Rightarrow> nat \<Rightarrow> edge_attr \<Rightarrow> graph" where
  "add_edge G u v a =
     (let G1 = add_node G u;
          G2 = add_node G1 v;
          G3 = AList.update u (AList.update v a (adj G2 u)) G2
      in AList.update v (AList.update u a (adj G3 v)) G3)"

subsection \<open>Topology builder\<close>

definition math_dist :: "int \<times> int \<Rightarrow> int \<times> int \<Rightarrow> real" where
  "math_dist p q = sqrt (real_of_int ((fst p - fst q)\<^sup>2 + (snd p - snd q)\<^sup>2))"

definition link_capacity :: "real \<Rightarrow> bool \<Rightarrow> bool \<Rightarrow> int" where
  "link_capacity d mr mc =
     (let c0 = max 1 (100 - \<lfloor>d / 3\<rfloor>);
          c1 = (if mr then c0 + 20 else c0)
      in if mc then c1 + 15 else c1)"

fun for_each :: "'a list \<Rightarrow> ('a \<Rightarrow> 's \<Rightarrow> py_error + 's) \<Rightarrow> 's \<Rightarrow> py_error + 's" where
  "for_each [] body s = Inr s"
| "for_each (a # rest) body s =
     (case body a s of Inl e \<Rightarrow> Inl e | Inr s' \<Rightarrow> for_each rest body s')"

text \<open>The body of the two nested loops, for one pair \<open>(i, j)\<close>.\<close>

definition link :: "nodes \<Rightarrow> int \<Rightarrow> bool \<Rightarrow> bool \<Rightarrow> nat \<Rightarrow> nat \<Rightarrow> graph \<Rightarrow> py_error + graph" where
  "link nodes tx mr mc i j G =
     (if i \<noteq> j then
        (case getitem nodes i of
           Inl e \<Rightarrow> Inl e
         | Inr ni \<Rightarrow>
             (case getitem nodes j of
                Inl e \<Rightarrow> Inl e
              | Inr nj \<Rightarrow>
                  (let d = math_dist (x ni, y ni) (x nj, y nj)
                   in if d \<le> real_of_int tx
                      then Inr (add_edge G i j
                                  \<lparr>weight = d, capacity = link_capacity d mr mc\<rparr>)
                      else Inr G)))
      else Inr G)"

definition build_links :: "nodes \<Rightarrow> int \<Rightarrow> bool \<Rightarrow> bool \<Rightarrow> py_error + graph" where
  "build_links nodes tx mr mc =
     for_each (map fst nodes)
       (\<lambda>i. for_each (map fst nodes) (\<lambda>j. link nodes tx mr mc i j)) []"

subsection \<open>Router\<close>

text \<open>
  \<open>nx.shortest_path(G, src, dst, weight="weight")\<close> is library code. Its contract:
  \<open>NodeNotFound\<close> when an end point is not in the graph, the one-node path when
  source and target coincide, \<open>NetworkXNoPath\<close> when no path joins them, and otherwise
  a simple path of least total weight. The model picks the first least-weight path
  among all simple node sequences of the graph; which of several equally short paths
  the library returns is left open by the specification.
\<close>

fun is_path :: "graph \<Rightarrow> nat list \<Rightarrow> bool" where
  "is_path G [] = False"
| "is_path G [u] = has_node G u"
| "is_path G (u # v # rest) = (edge G u v \<noteq> None \<and> is_path G (v # rest))"

fun path_weight :: "graph \<Rightarrow> nat list \<Rightarrow> real" where
  "path_weight G (u # v # rest) =
     (case edge G u v of None \<Rightarrow> 0 | Some a \<Rightarrow> weight a) + path_weight G (v # rest)"
| "path_weight G _ = 0"

definition node_sequences :: "graph \<Rightarrow> nat list list" where
  "node_sequences G =
     concat (map (\<lambda>k. List.n_lists k (map fst G)) [1..<Suc (length G)])"

definition routes :: "graph \<Rightarrow> nat \<Rightarrow> nat \<Rightarrow> nat list list" where
  "routes G source target =
     filter (\<lambda>p. hd p = source \<and> last p = target \<and> distinct p \<and> is_path G p)
       (node_sequences G)"

fun lightest :: "graph \<Rightarrow> nat list \<Rightarrow> nat list list \<Rightarrow> nat list" where
  "lightest G best [] = best"
| "lightest G best (p # ps) =
     lightest G (if path_weight G p < path_weight G best then p else best) ps"

definition nx_shortest_path :: "graph \<Rightarrow> nat \<Rightarrow> nat \<Rightarrow> nx_error + nat list" where
  "nx_shortest_path G source target =
     (if \<not> has_node G source \<or> \<not> has_node G target then Inl NodeNotFound
      else if source = target then Inr [source]
      else (case routes G source target of
              [] \<Rightarrow> Inl NetworkXNoPath
            | p # ps \<Rightarrow> Inr (lightest G p ps)))"

text \<open>\<open>find_route\<close>: the bare \<open>except\<close> turns every exception into \<open>None\<close>.\<close>

definition find_route :: "graph \<Rightarrow> nat \<Rightarrow> nat \<Rightarrow> nat list option" where
  "find_route G src dst =
     (case nx_shortest_path G src dst of Inl _ \<Rightarrow> None | Inr path \<Rightarrow> Some path)"

subsection \<open>Delivery simulator\<close>

text \<open>The globals the script mutates or reads after set-up, and the generator.\<close>

record world =
  nodes_of :: nodes
  graph_of :: graph
  rng_of :: rng

datatype walk_end = Dropped | Delivered

definition drop_trust :: "nat \<Rightarrow> nodes \<Rightarrow> nodes" where
  "drop_trust hop nodes = AList.map_entry hop (\<lambda>nd. nd\<lparr>trust := trust nd - 5\<rparr>) nodes"

definition drain_power :: "nat \<Rightarrow> int \<Rightarrow> nodes \<Rightarrow> nodes" where
  "drain_power hop d nodes = AList.map_entry hop (\<lambda>nd. nd\<lparr>power_pct := power_pct nd - d\<rparr>) nodes"

text \<open>The \<open>for hop in path\<close> loop; \<open>Dropped\<close> is the early return. The roll and the
  literal \<open>0.6\<close> are compared as real numbers.\<close>

fun walk :: "nat list \<Rightarrow> nodes \<Rightarrow> rng \<Rightarrow> py_error + (walk_end \<times> nodes \<times> rng)" where
  "walk [] nodes g = Inr (Delivered, nodes, g)"
| "walk (hop # rest) nodes g =
     (case getitem nodes hop of
        Inl e \<Rightarrow> Inl e
      | Inr nd \<Rightarrow>
          if selfish nd then
            (let (u, g1) = random g
             in if u < 6 / 10 then Inr (Dropped, drop_trust hop nodes, g1)
                else (let (d, g2) = randint 1 5 g1
                      in walk rest (drain_power hop d nodes) g2))
          else (let (d, g1) = randint 1 5 g
                in walk rest (drain_power hop d nodes) g1))"

definition status_of :: "walk_end \<Rightarrow> string" where
  "status_of e = (case e of Dropped \<Rightarrow> ''Dropped by selfish node'' | Delivered \<Rightarrow> ''Delivered'')"

definition send_packet ::
  "world \<Rightarrow> nat \<Rightarrow> nat \<Rightarrow> py_error + ((nat list option \<times> string) \<times> world)" where
  "send_packet w src dst =
     (case find_route (graph_of w) src dst of
        None \<Rightarrow> Inr ((None, ''No Path Found''), w)
      | Some path \<Rightarrow>
          if path = [] then Inr ((None, ''No Path Found''), w)
          else (case walk path (nodes_of w) (rng_of w) of
                  Inl e \<Rightarrow> Inl e
                | Inr (e, nodes', g') \<Rightarrow>
                    Inr ((Some path, status_of e), w\<lparr>nodes_of := nodes', rng_of := g'\<rparr>)))"

subsection \<open>One run of the script\<close>

record run_result =
  res_nodes :: nodes
  res_graph :: graph
  res_src :: int
  res_dst :: int
  res_path :: "nat list option"
  res_status :: string

definition run_simulation :: "config \<Rightarrow> rng \<Rightarrow> py_error + run_result" where
  "run_simulation cfg g0 =
     (let (nodes0, g1) = generate_nodes (num_nodes cfg) g0
      in case assign_selfish (num_nodes cfg) (selfish_ratio cfg) nodes0 g1 of
           Inl e \<Rightarrow> Inl e
         | Inr (selfish_nodes, nodes1, g2) \<Rightarrow>
             (case build_links nodes1 (tx_range cfg) (multi_radio cfg) (multi_channel cfg) of
                Inl e \<Rightarrow> Inl e
              | Inr G \<Rightarrow>
                  if num_nodes cfg - 1 < 0 then Inl ValueError
                  else (let (src, g3) = randint 0 (num_nodes cfg - 1) g2;
                            (dst, g4) = randint 0 (num_nodes cfg - 1) g3
                        in case send_packet \<lparr>nodes_of = nodes1, graph_of = G, rng_of = g4\<rparr>
                                  (nat src) (nat dst) of
                             Inl e \<Rightarrow> Inl e
                           | Inr ((path, status), w) \<Rightarrow>
                               Inr \<lparr>res_nodes = nodes_of w, res_graph = graph_of w,
                                    res_src = src, res_dst = dst,
                                    res_path = path, res_status = status\<rparr>)))"

subsection \<open>Frame of the delivery loop\<close>

text \<open>What one run of the loop may change in a node: nothing but power and trust.\<close>

definition same_fixed :: "node \<Rightarrow> node \<Rightarrow> bool" where
  "same_fixed a b = (x b = x a \<and> y b = y a \<and> selfish b = selfish a)"

subsection \<open>The report\<close>

text \<open>\<open>selfish_list = [n for n in nodes if nodes[n]["selfish"]]\<close>: the ids come from the
  dictionary itself, so the lookup cannot fail.\<close>

definition selfish_list :: "nodes \<Rightarrow> nat list" where
  "selfish_list nodes =
     filter (\<lambda>n. case map_of nodes n of None \<Rightarrow> False | Some nd \<Rightarrow> selfish nd) (map fst nodes)"

subsection \<open>Invariants of the node set-up\<close>

text \<open>A node as the generator leaves it, and a node after it was marked selfish.\<close>

definition fresh_node :: "node \<Rightarrow> bool" where
  "fresh_node nd \<longleftrightarrow> trust nd = 100 \<and> \<not> selfish nd"

definition marked :: "node \<Rightarrow> node \<Rightarrow> bool" where
  "marked nd nd' \<longleftrightarrow> (\<exists>t. 20 \<le> t \<and> t \<le> 60 \<and> nd' = nd\<lparr>trust := t, selfish := True\<rparr>)"

subsection \<open>Invariants of the topology builder\<close>

text \<open>A graph built by \<open>add_edge\<close> alone holds exactly the nodes that have an edge.\<close>

definition graph_ok :: "graph \<Rightarrow> bool" where
  "graph_ok G = (\<forall>u. has_node G u \<longleftrightarrow> (\<exists>v. edge G u v \<noteq> None))"

text \<open>The attributes that the two nested loops are to leave on the pair \<open>(i, j)\<close>.\<close>

definition wanted :: "nodes \<Rightarrow> int \<Rightarrow> bool \<Rightarrow> bool \<Rightarrow> nat \<Rightarrow> nat \<Rightarrow> edge_attr option" where
  "wanted nodes tx mr mc i j =
     (case map_of nodes i of
        None \<Rightarrow> None
      | Some ni \<Rightarrow>
          (case map_of nodes j of
             None \<Rightarrow> None
           | Some nj \<Rightarrow>
               (let d = math_dist (x ni, y ni) (x nj, y nj)
                in if i \<noteq> j \<and> d \<le> real_of_int tx
                   then Some \<lparr>weight = d, capacity = link_capacity d mr mc\<rparr>
                   else None)))"

subsection \<open>A three-node scenario\<close>

text \<open>Two nodes a hundred units apart and linked, the second one selfish, and a third
  node out of range of both, which the graph therefore does not contain.\<close>

definition demo_nodes :: nodes where
  "demo_nodes =
     [(0, \<lparr>x = 0, y = 0, power_pct = 70, trust = 100, selfish = False\<rparr>),
      (1, \<lparr>x = 100, y = 0, power_pct = 80, trust = 40, selfish = True\<rparr>),
      (2, \<lparr>x = 800, y = 500, power_pct = 90, trust = 100, selfish = False\<rparr>)]"

definition demo_graph :: graph where
  "demo_graph =
     [(0, [(1, \<lparr>weight = 100, capacity = 67\<rparr>)]),
      (1, [(0, \<lparr>weight = 100, capacity = 67\<rparr>)])]"

definition demo_world :: world where
  "demo_world = \<lparr>nodes_of = demo_nodes, graph_of = demo_graph, rng_of = sconst 0\<rparr>"

text \<open>The same two linked nodes, both cooperative.\<close>

definition honest_world :: world where
  "honest_world =
     \<lparr>nodes_of = [(0, \<lparr>x = 0, y = 0, power_pct = 70, trust = 100, selfish = False\<rparr>),
                  (1, \<lparr>x = 100, y = 0, power_pct = 80, trust = 100, selfish = False\<rparr>)],
      graph_of = demo_graph, rng_of = sconst 7\<rparr>"

section \<open>Properties\<close>

subsection \<open>The random source and dictionaries\<close>

lemma randint_range:
  assumes "a \<le> b"
  shows "a \<le> fst (randint a b g) \<and> fst (randint a b g) \<le> b"
proof -
  have pos: "0 < nat (b - a + 1)" using assms by simp
  have "shd g mod nat (b - a + 1) < nat (b - a + 1)" using pos by (rule mod_less_divisor)
  then have "int (shd g mod nat (b - a + 1)) < b - a + 1" using assms by linarith
  then show ?thesis by (simp add: randint_def)
qed

lemma randint_rng: "snd (randint a b g) = stl g"
  by (simp add: randint_def)

lemma random_rng: "snd (random g) = stl g"
  by (simp add: random_def)

lemma getitem_Inr: "getitem d k = Inr v \<longleftrightarrow> map_of d k = Some v"
  by (simp add: getitem_def split: option.splits)

lemma getitem_Inl: "getitem d k = Inl e \<longleftrightarrow> map_of d k = None \<and> e = KeyError"
  by (auto simp add: getitem_def split: option.splits)

lemma map_of_drop_trust:
  "map_of (drop_trust hop nodes) k =
     (if k = hop then map_option (\<lambda>nd. nd\<lparr>trust := trust nd - 5\<rparr>) (map_of nodes hop)
      else map_of nodes k)"
  by (simp add: drop_trust_def map_of_map_entry split: option.splits)

lemma map_of_drain_power:
  "map_of (drain_power hop d nodes) k =
     (if k = hop then map_option (\<lambda>nd. nd\<lparr>power_pct := power_pct nd - d\<rparr>) (map_of nodes hop)
      else map_of nodes k)"
  by (simp add: drain_power_def map_of_map_entry split: option.splits)

lemma keys_map_entry: "map fst (AList.map_entry k f al) = map fst al"
  by (induction al) auto

lemma keys_drop_trust: "map fst (drop_trust hop nodes) = map fst nodes"
  by (simp add: drop_trust_def keys_map_entry)

lemma keys_drain_power: "map fst (drain_power hop d nodes) = map fst nodes"
  by (simp add: drain_power_def keys_map_entry)

lemma walk_keys:
  "walk path nodes g = Inr (e, nodes', g') \<Longrightarrow> map fst nodes' = map fst nodes"
proof (induction path arbitrary: nodes g)
  case Nil
  then show ?case by simp
next
  case (Cons hop rest)
  then show ?case
    by (auto simp: getitem_def keys_drop_trust keys_drain_power
        split: option.splits if_splits prod.splits)
qed

lemma walk_off_path:
  "walk path nodes g = Inr (e, nodes', g') \<Longrightarrow> k \<notin> set path \<Longrightarrow> map_of nodes' k = map_of nodes k"
proof (induction path arbitrary: nodes g)
  case Nil
  then show ?case by simp
next
  case (Cons hop rest)
  then show ?case
    by (auto simp: getitem_def map_of_drop_trust map_of_drain_power
        split: option.splits if_splits prod.splits)
qed

lemma walk_fixed:
  "walk path nodes g = Inr (e, nodes', g') \<Longrightarrow>
   rel_option same_fixed (map_of nodes k) (map_of nodes' k)"
proof (induction path arbitrary: nodes g)
  case Nil
  then show ?case by (simp add: option.rel_refl same_fixed_def)
next
  case (Cons hop rest)
  have refl: "rel_option same_fixed (map_of nodes k) (map_of nodes k)"
    by (simp add: option.rel_refl same_fixed_def)
  have step1: "rel_option same_fixed (map_of nodes k) (map_of (drop_trust hop nodes) k)"
    by (cases "map_of nodes hop") (auto simp: map_of_drop_trust same_fixed_def option.rel_refl)
  have step2: "rel_option same_fixed (map_of nodes k) (map_of (drain_power hop d nodes) k)" for d
    by (cases "map_of nodes hop") (auto simp: map_of_drain_power same_fixed_def option.rel_refl)
  have trans: "rel_option same_fixed a b \<Longrightarrow> rel_option same_fixed b c \<Longrightarrow> rel_option same_fixed a c" for a b c
    by (cases a; cases b; cases c) (auto simp: same_fixed_def)
  from Cons.prems show ?case
    by (auto simp: getitem_def step1 split: option.splits if_splits prod.splits
        intro: trans[OF step2 Cons.IH])
qed

subsection \<open>The delivery loop and the router\<close>



lemma walk_honest:
  assumes "\<forall>h\<in>set path. \<exists>nd. map_of nodes h = Some nd \<and> \<not> selfish nd"
  shows "\<exists>nodes'. walk path nodes g = Inr (Delivered, nodes', sdrop (length path) g)"
  using assms
proof (induction path arbitrary: nodes g)
  case Nil
  then show ?case by simp
next
  case (Cons hop rest)
  from Cons.prems obtain nd where nd: "map_of nodes hop = Some nd" "\<not> selfish nd"
    by auto
  let ?d = "fst (randint 1 5 g)"
  have keep: "\<forall>h\<in>set rest. \<exists>n. map_of (drain_power hop ?d nodes) h = Some n \<and> \<not> selfish n"
    using Cons.prems nd by (auto simp: map_of_drain_power)
  from Cons.IH[OF keep, of "stl g"] obtain nodes' where
    "walk rest (drain_power hop ?d nodes) (stl g) = Inr (Delivered, nodes', sdrop (length rest) (stl g))"
    by blast
  then show ?case using nd
    by (simp add: getitem_def randint_rng split: prod.splits) (metis fst_conv snd_conv randint_rng)
qed

lemma walk_power_step:
  assumes "walk path nodes g = Inr (Delivered, nodes', g')"
    and "distinct path" and "h \<in> set path"
    and "\<forall>k\<in>set path. \<exists>nd. map_of nodes k = Some nd \<and> \<not> selfish nd"
  shows "\<exists>nd nd'. map_of nodes h = Some nd \<and> map_of nodes' h = Some nd' \<and>
           1 \<le> power_pct nd - power_pct nd' \<and> power_pct nd - power_pct nd' \<le> 5"
  using assms
proof (induction path arbitrary: nodes g)
  case Nil
  then show ?case by simp
next
  case (Cons hop rest)
  from Cons.prems(4) obtain nd where nd: "map_of nodes hop = Some nd" "\<not> selfish nd"
    by auto
  let ?d = "fst (randint 1 5 g)"
  let ?n1 = "drain_power hop ?d nodes"
  have w: "walk rest ?n1 (snd (randint 1 5 g)) = Inr (Delivered, nodes', g')"
    using Cons.prems(1) nd by (simp add: getitem_def split: prod.splits)
  have keep: "\<forall>k\<in>set rest. \<exists>n. map_of ?n1 k = Some n \<and> \<not> selfish n"
    using Cons.prems(4) nd by (auto simp: map_of_drain_power)
  show ?case
  proof (cases "h = hop")
    case True
    then have "hop \<notin> set rest" using Cons.prems(2) by simp
    from walk_off_path[OF w this] have "map_of nodes' hop = Some (nd\<lparr>power_pct := power_pct nd - ?d\<rparr>)"
      using nd by (simp add: map_of_drain_power)
    moreover have "1 \<le> ?d \<and> ?d \<le> 5" by (rule randint_range) simp
    ultimately show ?thesis using True nd by simp
  next
    case False
    then have hin: "h \<in> set rest" using Cons.prems(3) by simp
    from Cons.prems(2) have d: "distinct rest" by simp
    from Cons.IH[OF w d hin keep] False show ?thesis
      by (simp add: map_of_drain_power)
  qed
qed

lemma lightest_mem: "lightest G best ps \<in> set (best # ps)"
  by (induction ps arbitrary: best) auto

lemma find_route_sound:
  assumes "find_route G src dst = Some path"
  shows "path \<noteq> [] \<and> distinct path \<and> hd path = src \<and> last path = dst \<and> is_path G path"
proof (cases "src = dst")
  case True
  with assms show ?thesis
    by (auto simp: find_route_def nx_shortest_path_def split: if_splits sum.splits)
next
  case False
  with assms obtain p ps where r: "routes G src dst = p # ps" and path: "path = lightest G p ps"
    by (auto simp: find_route_def nx_shortest_path_def split: if_splits sum.splits list.splits)
  have "path \<in> set (routes G src dst)" unfolding r path by (rule lightest_mem)
  then have "hd path = src \<and> last path = dst \<and> distinct path \<and> is_path G path"
    by (simp add: routes_def)
  moreover have "path \<noteq> []" using calculation by auto
  ultimately show ?thesis by simp
qed

lemma find_route_None:
  assumes "\<not> (\<exists>p. is_path G p \<and> hd p = src \<and> last p = dst)"
  shows "find_route G src dst = None"
proof (rule ccontr)
  assume "find_route G src dst \<noteq> None"
  then obtain path where "find_route G src dst = Some path" by auto
  from find_route_sound[OF this] assms show False by blast
qed

lemma is_path_last: "is_path G p \<Longrightarrow> has_node G (last p)"
  by (induction G p rule: is_path.induct) auto

lemma is_path_hd: "is_path G p \<Longrightarrow> has_node G (hd p)"
  by (induction G p rule: is_path.induct) (auto simp: has_node_def edge_def adj_def split: option.splits)

subsection \<open>The router meets its contract\<close>

lemma is_path_suffix: "is_path G (xs @ b # ys) \<Longrightarrow> is_path G (b # ys)"
proof (induction xs)
  case Nil
  then show ?case by simp
next
  case (Cons a xs)
  then show ?case by (cases "xs @ b # ys") auto
qed

lemma is_path_prefix: "is_path G (xs @ b # ys) \<Longrightarrow> is_path G (xs @ [b])"
proof (induction xs)
  case Nil
  then show ?case using is_path_hd[of G "b # ys"] by simp
next
  case (Cons a xs)
  then show ?case by (cases xs) auto
qed

lemma is_path_join: "is_path G (xs @ [b]) \<Longrightarrow> is_path G (b # ys) \<Longrightarrow> is_path G (xs @ b # ys)"
proof (induction xs)
  case Nil
  then show ?case by simp
next
  case (Cons a xs)
  then show ?case by (cases xs) auto
qed

lemma is_path_nodes: "is_path G p \<Longrightarrow> u \<in> set p \<Longrightarrow> has_node G u"
proof -
  assume p: "is_path G p" and "u \<in> set p"
  then obtain xs ys where "p = xs @ u # ys" by (meson split_list)
  with p have "is_path G (u # ys)" by (simp add: is_path_suffix)
  then show ?thesis using is_path_hd[of G "u # ys"] by simp
qed

lemma is_path_simple:
  "is_path G p \<Longrightarrow> \<exists>q. is_path G q \<and> distinct q \<and> hd q = hd p \<and> last q = last p"
proof (induction "length p" arbitrary: p rule: less_induct)
  case less
  show ?case
  proof (cases "distinct p")
    case True
    with less.prems show ?thesis by blast
  next
    case False
    then obtain xs ys zs a where p: "p = xs @ [a] @ ys @ [a] @ zs"
      using not_distinct_decomp by blast
    let ?q = "xs @ a # zs"
    have "is_path G (xs @ [a])" using less.prems p is_path_prefix[of G xs a "ys @ a # zs"] by simp
    moreover have "is_path G (a # zs)"
      using less.prems p is_path_suffix[of G "xs @ a # ys" a zs] by simp
    ultimately have q: "is_path G ?q" by (rule is_path_join)
    have "length ?q < length p" using p by simp
    from less.hyps[OF this q] obtain q' where
      "is_path G q'" "distinct q'" "hd q' = hd ?q" "last q' = last ?q" by blast
    moreover have "hd ?q = hd p" using p by (cases xs) simp_all
    moreover have "last ?q = last p" using p by simp
    ultimately show ?thesis by metis
  qed
qed

lemma simple_path_listed:
  assumes "is_path G p" "distinct p"
  shows "p \<in> set (node_sequences G)"
proof -
  have ne: "p \<noteq> []" using assms(1) by auto
  have sub: "set p \<subseteq> set (map fst G)"
  proof
    fix u assume "u \<in> set p"
    then have "has_node G u" using assms(1) by (rule is_path_nodes[rotated])
    then show "u \<in> set (map fst G)" by (auto simp: has_node_def map_of_eq_None_iff)
  qed
  have "length p = card (set p)" using assms(2) by (simp add: distinct_card)
  also have "\<dots> \<le> card (set (map fst G))" using sub by (simp add: card_mono)
  also have "\<dots> \<le> length G" using card_length[of "map fst G"] by simp
  finally have le: "length p \<le> length G" .
  have "p \<in> set (List.n_lists (length p) (map fst G))"
    using sub by (simp add: set_n_lists)
  moreover have "length p \<in> set [1..<Suc (length G)]" using ne le by (cases p) auto
  ultimately show ?thesis unfolding node_sequences_def by auto
qed

lemma routes_iff:
  "p \<in> set (routes G s t) \<longleftrightarrow> is_path G p \<and> distinct p \<and> hd p = s \<and> last p = t"
  using simple_path_listed by (auto simp: routes_def)

text \<open>The router finds a route whenever the graph holds a path.\<close>

lemma find_route_complete:
  assumes "is_path G p" "hd p = src" "last p = dst"
  shows "\<exists>q. find_route G src dst = Some q"
proof -
  have s: "has_node G src" using is_path_hd[OF assms(1)] assms(2) by simp
  have t: "has_node G dst" using is_path_last[OF assms(1)] assms(3) by simp
  from is_path_simple[OF assms(1)] obtain q where
    "is_path G q" "distinct q" "hd q = src" "last q = dst"
    using assms(2,3) by auto
  then have "q \<in> set (routes G src dst)" by (simp add: routes_iff)
  then have "routes G src dst \<noteq> []" by auto
  then show ?thesis using s t
    by (auto simp: find_route_def nx_shortest_path_def split: list.splits)
qed

lemma lightest_least: "p \<in> set (best # ps) \<Longrightarrow> path_weight G (lightest G best ps) \<le> path_weight G p"
proof (induction ps arbitrary: best p)
  case Nil
  then show ?case by simp
next
  case (Cons a ps)
  let ?b = "if path_weight G a < path_weight G best then a else best"
  have b: "path_weight G (lightest G ?b ps) \<le> path_weight G ?b"
    using Cons.IH[of ?b ?b] by simp
  show ?case
  proof (cases "p \<in> set (?b # ps)")
    case True
    then show ?thesis using Cons.IH[of p ?b] by simp
  next
    case False
    then have "p = a \<or> p = best" using Cons.prems by auto
    then have "path_weight G ?b \<le> path_weight G p" by auto
    with b show ?thesis by simp
  qed
qed

text \<open>A route between different nodes weighs no more than any simple path between them.\<close>

lemma find_route_least:
  assumes "find_route G src dst = Some q" "src \<noteq> dst"
    and "is_path G p" "distinct p" "hd p = src" "last p = dst"
  shows "path_weight G q \<le> path_weight G p"
proof -
  from assms(1,2) obtain r rs where r: "routes G src dst = r # rs" and q: "q = lightest G r rs"
    by (auto simp: find_route_def nx_shortest_path_def split: if_splits sum.splits list.splits)
  have "p \<in> set (r # rs)" using assms(3-6) routes_iff[of p G src dst] r by simp
  then show ?thesis unfolding q by (rule lightest_least)
qed

subsection \<open>Node generation and selfish assignment\<close>

lemma selfish_count_div: "0 \<le> n \<Longrightarrow> 0 \<le> r \<Longrightarrow> selfish_count n r = n * r div 100"
  by (simp add: selfish_count_def)

lemma selfish_count_bounds:
  assumes "0 \<le> n" "0 \<le> r" "r \<le> 100"
  shows "0 \<le> selfish_count n r \<and> selfish_count n r \<le> n"
proof -
  have "n * r \<le> n * 100" using assms by (simp add: mult_left_mono)
  then have "n * r div 100 \<le> n * 100 div 100" by (rule zdiv_mono1) simp
  moreover have "0 \<le> n * r div 100" using assms by (simp add: pos_imp_zdiv_nonneg_iff)
  ultimately show ?thesis using assms by (simp add: selfish_count_div)
qed

lemma update_fresh: "k \<notin> fst ` set al \<Longrightarrow> AList.update k v al = al @ [(k, v)]"
  by (induction al) auto

lemma generate_loop_keys:
  "distinct ks \<Longrightarrow> set ks \<inter> fst ` set nodes = {} \<Longrightarrow>
   map fst (fst (generate_loop ks nodes g)) = map fst nodes @ ks"
proof (induction ks arbitrary: nodes g)
  case Nil
  then show ?case by simp
next
  case (Cons i ks)
  let ?nd = "\<lparr>x = fst (randint 0 800 g), y = fst (randint 0 500 (stl g)),
              power_pct = fst (randint 70 100 (stl (stl g))), trust = 100, selfish = False\<rparr>"
  have fresh: "i \<notin> fst ` set nodes" using Cons.prems by auto
  have "set ks \<inter> fst ` set (nodes @ [(i, ?nd)]) = {}" using Cons.prems by auto
  from Cons.IH[OF _ this] Cons.prems(1)
  have "map fst (fst (generate_loop ks (nodes @ [(i, ?nd)]) g')) = map fst nodes @ i # ks" for g'
    by simp
  then show ?case using fresh
    by (simp add: update_fresh randint_def case_prod_beta)
qed

lemma generate_loop_fresh:
  "\<forall>e\<in>set nodes. fresh_node (snd e) \<Longrightarrow>
   \<forall>e\<in>set (fst (generate_loop ks nodes g)). fresh_node (snd e)"
proof (induction ks arbitrary: nodes g)
  case Nil
  then show ?case by simp
next
  case (Cons i ks)
  have upd: "\<forall>e\<in>set (AList.update i v nodes). fresh_node (snd e)" if "fresh_node v" for v
    using Cons.prems that by (induction nodes) auto
  show ?case
    by (simp add: case_prod_beta) (rule Cons.IH, rule upd, simp add: fresh_node_def)
qed

lemma generate_nodes_keys: "map fst (fst (generate_nodes n g)) = [0..<nat n]"
  using generate_loop_keys[of "[0..<nat n]" "[]" g] by (simp add: generate_nodes_def)

lemma generate_nodes_fresh:
  "map_of (fst (generate_nodes n g)) k = Some nd \<Longrightarrow> trust nd = 100 \<and> \<not> selfish nd"
  using generate_loop_fresh[of "[]" "[0..<nat n]" g]
  by (auto simp: generate_nodes_def fresh_node_def dest!: map_of_SomeD)

lemma sample_pool_props:
  "k \<le> length pool \<Longrightarrow> distinct pool \<Longrightarrow>
   length (fst (sample_pool pool k g)) = k \<and> distinct (fst (sample_pool pool k g))
   \<and> set (fst (sample_pool pool k g)) \<subseteq> set pool"
proof (induction k arbitrary: pool g)
  case 0
  then show ?case by simp
next
  case (Suc k)
  let ?j = "shd g mod length pool"
  let ?pool' = "take ?j pool @ drop (Suc ?j) pool"
  have pos: "0 < length pool" using Suc.prems(1) by linarith
  then have j: "?j < length pool" by simp
  have split: "pool = take ?j pool @ pool ! ?j # drop (Suc ?j) pool"
    using j by (rule id_take_nth_drop)
  have d: "distinct (take ?j pool @ pool ! ?j # drop (Suc ?j) pool)"
    using Suc.prems(2) split by simp
  then have d': "distinct ?pool'" and out: "pool ! ?j \<notin> set ?pool'"
    by auto
  have sub: "set ?pool' \<subseteq> set pool"
    by (metis split set_append set_subset_Cons Un_mono subset_refl)
  have len: "k \<le> length ?pool'" using Suc.prems(1) j by simp
  from Suc.IH[OF len d', of "stl g"] sub out j show ?case
    by (auto simp: randbelow_def case_prod_beta)
qed

lemma marked_again: "marked a b \<Longrightarrow> marked b c \<Longrightarrow> marked a c"
  by (auto simp: marked_def)

lemma mark_selfish_props:
  assumes "\<forall>k\<in>set sel. map_of nodes k \<noteq> None"
  shows "\<exists>nodes'. mark_selfish sel nodes g = Inr (nodes', sdrop (length sel) g)
           \<and> map fst nodes' = map fst nodes
           \<and> (\<forall>k. rel_option (\<lambda>nd nd'. if k \<in> set sel then marked nd nd' else nd' = nd)
                    (map_of nodes k) (map_of nodes' k))"
  using assms
proof (induction sel arbitrary: nodes g)
  case Nil
  then show ?case by (simp add: option.rel_refl)
next
  case (Cons sn rest)
  let ?t = "fst (randint 20 60 g)"
  let ?n2 = "AList.map_entry sn (\<lambda>nd. nd\<lparr>trust := ?t\<rparr>)
               (AList.map_entry sn (\<lambda>nd. nd\<lparr>selfish := True\<rparr>) nodes)"
  from Cons.prems obtain nd0 where nd0: "map_of nodes sn = Some nd0" by auto
  have m2: "map_of ?n2 k = (if k = sn then Some (nd0\<lparr>trust := ?t, selfish := True\<rparr>) else map_of nodes k)" for k
    using nd0 by (simp add: map_of_map_entry)
  have k2: "map fst ?n2 = map fst nodes" by (simp add: keys_map_entry)
  have t: "20 \<le> ?t \<and> ?t \<le> 60" by (rule randint_range) simp
  then have mk: "marked nd0 (nd0\<lparr>trust := ?t, selfish := True\<rparr>)"
    unfolding marked_def by blast
  have pres: "\<forall>k\<in>set rest. map_of ?n2 k \<noteq> None"
    using Cons.prems by (simp add: m2)
  from Cons.IH[OF pres, of "stl g"] obtain nodes' where
    run: "mark_selfish rest ?n2 (stl g) = Inr (nodes', sdrop (length rest) (stl g))"
    and keys: "map fst nodes' = map fst ?n2"
    and upd: "\<And>k. rel_option (\<lambda>nd nd'. if k \<in> set rest then marked nd nd' else nd' = nd)
                    (map_of ?n2 k) (map_of nodes' k)"
    by blast
  have step: "mark_selfish (sn # rest) nodes g = Inr (nodes', sdrop (length (sn # rest)) g)"
    using nd0 run by (simp add: getitem_def randint_def case_prod_beta)
  have upd': "rel_option (\<lambda>nd nd'. if k \<in> set (sn # rest) then marked nd nd' else nd' = nd)
                (map_of nodes k) (map_of nodes' k)" for k
  proof (cases "k = sn")
    case True
    show ?thesis
    proof (cases "k \<in> set rest")
      case r: True
      from upd[of k] True r obtain nd' where
        "map_of nodes' k = Some nd'" "marked (nd0\<lparr>trust := ?t, selfish := True\<rparr>) nd'"
        by (auto simp: m2 option_rel_Some1)
      with mk show ?thesis using True nd0 by (auto intro: marked_again)
    next
      case r: False
      from upd[of k] True r have "map_of nodes' k = Some (nd0\<lparr>trust := ?t, selfish := True\<rparr>)"
        by (auto simp: m2 option_rel_Some1)
      with mk show ?thesis using True nd0 by simp
    qed
  next
    case False
    then show ?thesis using upd[of k] by (simp add: m2)
  qed
  from step keys k2 upd' show ?case by auto
qed

lemma length_filter_mem:
  assumes "distinct xs" "distinct sel" "set sel \<subseteq> set xs"
  shows "length (filter (\<lambda>k. k \<in> set sel) xs) = length sel"
proof -
  have "distinct (filter (\<lambda>k. k \<in> set sel) xs)" using assms(1) by simp
  moreover have "set (filter (\<lambda>k. k \<in> set sel) xs) = set sel" using assms(3) by auto
  ultimately show ?thesis using assms(2) by (metis distinct_card)
qed

text \<open>The whole of the selfish assignment on freshly generated nodes.\<close>

lemma assign_selfish_generated:
  assumes n: "0 \<le> n" and r: "0 \<le> r" "r \<le> 100"
  shows "\<exists>sel nodes'.
           assign_selfish n r (fst (generate_nodes n g0)) g
             = Inr (sel, nodes', sdrop (length sel) (sdrop (length sel) g))
         \<and> int (length sel) = n * r div 100 \<and> distinct sel \<and> set sel \<subseteq> {0..<nat n}
         \<and> map fst nodes' = [0..<nat n]
         \<and> (\<forall>i<nat n. \<exists>nd. map_of nodes' i = Some nd \<and>
               (if i \<in> set sel then selfish nd \<and> 20 \<le> trust nd \<and> trust nd \<le> 60
                else \<not> selfish nd \<and> trust nd = 100))"
proof -
  let ?nodes = "fst (generate_nodes n g0)"
  let ?c = "selfish_count n r"
  have keys: "map fst ?nodes = [0..<nat n]" by (rule generate_nodes_keys)
  have c: "0 \<le> ?c" "?c \<le> n" "?c = n * r div 100"
    using selfish_count_bounds[OF n r] selfish_count_div[OF n r(1)] by simp_all
  let ?sel = "fst (sample_pool [0..<nat n] (nat ?c) g)"
  have le: "nat ?c \<le> length [0..<nat n]" using c n by simp
  from sample_pool_props[OF le, of g]
  have sel: "length ?sel = nat ?c" "distinct ?sel" "set ?sel \<subseteq> {0..<nat n}"
    by simp_all
  have sample_rng: "snd (sample_pool pool k g') = sdrop k g'" for pool :: "nat list" and k g'
    by (induction k arbitrary: pool g') (simp_all add: randbelow_def case_prod_beta)
  have rs: "random_sample (map fst ?nodes) ?c g = Inr (?sel, sdrop (length ?sel) g)"
    using c(1,2) n by (simp add: random_sample_def keys sample_rng sel(1) prod_eq_iff)
  have present: "\<forall>k\<in>set ?sel. map_of ?nodes k \<noteq> None"
  proof
    fix k assume "k \<in> set ?sel"
    then have "k \<in> set (map fst ?nodes)" using sel(3) keys by auto
    then show "map_of ?nodes k \<noteq> None" by (simp add: map_of_eq_None_iff)
  qed
  from mark_selfish_props[OF present, of "sdrop (length ?sel) g"] obtain nodes' where
    ms: "mark_selfish ?sel ?nodes (sdrop (length ?sel) g)
           = Inr (nodes', sdrop (length ?sel) (sdrop (length ?sel) g))"
    and k': "map fst nodes' = map fst ?nodes"
    and upd: "\<And>k. rel_option (\<lambda>nd nd'. if k \<in> set ?sel then marked nd nd' else nd' = nd)
                    (map_of ?nodes k) (map_of nodes' k)"
    by blast
  have as: "assign_selfish n r ?nodes g
      = Inr (?sel, nodes', sdrop (length ?sel) (sdrop (length ?sel) g))"
    by (simp add: assign_selfish_def rs ms)
  have each: "\<exists>nd. map_of nodes' i = Some nd \<and>
               (if i \<in> set ?sel then selfish nd \<and> 20 \<le> trust nd \<and> trust nd \<le> 60
                else \<not> selfish nd \<and> trust nd = 100)" if "i < nat n" for i
  proof -
    from that have "i \<in> set (map fst ?nodes)" by (simp add: keys)
    then obtain nd0 where nd0: "map_of ?nodes i = Some nd0"
      by (metis map_of_eq_None_iff not_Some_eq set_map)
    from generate_nodes_fresh[OF nd0] have fr: "trust nd0 = 100" "\<not> selfish nd0" by simp_all
    from upd[of i] nd0 obtain nd where nd: "map_of nodes' i = Some nd"
      and rel: "if i \<in> set ?sel then marked nd0 nd else nd = nd0"
      by (auto simp: option_rel_Some1)
    show ?thesis using nd rel fr by (auto simp: marked_def split: if_splits)
  qed
  have len: "int (length ?sel) = n * r div 100" using sel(1) c by simp
  have k'': "map fst nodes' = [0..<nat n]" using k' keys by simp
  show ?thesis
  proof (intro exI conjI)
    show "assign_selfish n r ?nodes g
      = Inr (?sel, nodes', sdrop (length ?sel) (sdrop (length ?sel) g))" by (rule as)
    show "int (length ?sel) = n * r div 100" by (rule len)
    show "distinct ?sel" by (rule sel(2))
    show "set ?sel \<subseteq> {0..<nat n}" by (rule sel(3))
    show "map fst nodes' = [0..<nat n]" by (rule k'')
    show "\<forall>i<nat n. \<exists>nd. map_of nodes' i = Some nd \<and>
               (if i \<in> set ?sel then selfish nd \<and> 20 \<le> trust nd \<and> trust nd \<le> 60
                else \<not> selfish nd \<and> trust nd = 100)"
      using each by blast
  qed
qed

lemma selfish_list_marked:
  assumes keys: "map fst nodes' = [0..<m]"
    and each: "\<forall>i<m. \<exists>nd. map_of nodes' i = Some nd \<and>
               (if i \<in> set sel then selfish nd \<and> 20 \<le> trust nd \<and> trust nd \<le> 60
                else \<not> selfish nd \<and> trust nd = 100)"
  shows "selfish_list nodes' = filter (\<lambda>k. k \<in> set sel) [0..<m]"
  unfolding selfish_list_def keys
proof (rule filter_cong[OF refl])
  fix k assume "k \<in> set [0..<m]"
  then have "k < m" by simp
  with each obtain nd where "map_of nodes' k = Some nd"
    "if k \<in> set sel then selfish nd \<and> 20 \<le> trust nd \<and> trust nd \<le> 60
     else \<not> selfish nd \<and> trust nd = 100"
    by blast
  then show "(case map_of nodes' k of None \<Rightarrow> False | Some nd \<Rightarrow> selfish nd) = (k \<in> set sel)"
    by (auto split: if_splits)
qed

text \<open>
  Claim C6. On freshly generated nodes, selfish assignment succeeds and selects exactly
  \<open>floor(num_nodes * selfish_ratio / 100)\<close> distinct node ids; every selected node is
  selfish with a trust between 20 and 60, every other node is not selfish and keeps
  trust 100, so with a count of 0 no node is selfish and all trusts are 100.
\<close>

theorem selfish_assignment:
  assumes "0 \<le> n" and "0 \<le> r" and "r \<le> 100"
    and gen: "generate_nodes n g0 = (nodes0, g1)"
  shows "\<exists>sel nodes' g2.
           assign_selfish n r nodes0 g1 = Inr (sel, nodes', g2)
         \<and> int (length sel) = n * r div 100 \<and> distinct sel \<and> set sel \<subseteq> {0..<nat n}
         \<and> (\<forall>i<nat n. \<exists>nd. map_of nodes' i = Some nd \<and>
               (if i \<in> set sel then selfish nd \<and> 20 \<le> trust nd \<and> trust nd \<le> 60
                else \<not> selfish nd \<and> trust nd = 100))
         \<and> (n * r div 100 = 0 \<longrightarrow>
               (\<forall>i<nat n. \<exists>nd. map_of nodes' i = Some nd \<and> \<not> selfish nd \<and> trust nd = 100))"
proof -
  have n0: "nodes0 = fst (generate_nodes n g0)" using gen by simp
  from assign_selfish_generated[OF assms(1-3), of g0 g1] obtain sel nodes' where
    as: "assign_selfish n r nodes0 g1 = Inr (sel, nodes', sdrop (length sel) (sdrop (length sel) g1))"
    and len: "int (length sel) = n * r div 100" and d: "distinct sel"
    and sub: "set sel \<subseteq> {0..<nat n}"
    and each: "\<forall>i<nat n. \<exists>nd. map_of nodes' i = Some nd \<and>
               (if i \<in> set sel then selfish nd \<and> 20 \<le> trust nd \<and> trust nd \<le> 60
                else \<not> selfish nd \<and> trust nd = 100)"
    unfolding n0 by blast
  have none: "\<forall>i<nat n. \<exists>nd. map_of nodes' i = Some nd \<and> \<not> selfish nd \<and> trust nd = 100"
    if "n * r div 100 = 0"
  proof -
    from that len have "sel = []" by simp
    with each show ?thesis by simp
  qed
  from as len d sub each none show ?thesis by blast
qed

theorem selfish_assignment_witness:
  "(0::int) \<le> 5 \<and> (0::int) \<le> 40 \<and> (40::int) \<le> 100
   \<and> (\<exists>sel nodes' g2.
         assign_selfish 5 40 (fst (generate_nodes 5 (sconst 0))) (snd (generate_nodes 5 (sconst 0)))
           = Inr (sel, nodes', g2)
       \<and> length sel = 2 \<and> distinct sel \<and> set sel \<subseteq> {0..<5})"
proof -
  have gen: "generate_nodes 5 (sconst 0)
      = (fst (generate_nodes 5 (sconst 0)), snd (generate_nodes 5 (sconst 0)))"
    by simp
  have h: "(0::int) \<le> 5" "(0::int) \<le> 40" "(40::int) \<le> 100" by simp_all
  from selfish_assignment[OF h gen] obtain sel nodes' g2 where
    "assign_selfish 5 40 (fst (generate_nodes 5 (sconst 0))) (snd (generate_nodes 5 (sconst 0)))
       = Inr (sel, nodes', g2)"
    "int (length sel) = 5 * 40 div 100" "distinct sel" "set sel \<subseteq> {0..<nat 5}"
    by blast
  then show ?thesis by auto
qed

text \<open>
  Claim C7, as stated: the number of selfish nodes is \<open>round(num_nodes * selfish_ratio / 100)\<close>.
  With 6 nodes and a ratio of 30 the script marks \<open>int(1.8) = 1\<close> node, and the nearest
  integer is 2.
\<close>

theorem selfish_round_counterexample:
  "map_sum id (length \<circ> selfish_list \<circ> fst \<circ> snd)
     (assign_selfish 6 30 (fst (generate_nodes 6 (sconst 0))) (snd (generate_nodes 6 (sconst 0))))
     = Inr 1
   \<and> round (6 * 30 / 100 :: real) = 2"
proof -
  let ?fresh = "\<lparr>x = 0, y = 0, power_pct = 70, trust = 100, selfish = False\<rparr>"
  let ?nodes = "[(0, ?fresh), (1, ?fresh), (2, ?fresh), (3, ?fresh), (4, ?fresh), (5::nat, ?fresh)]"
  have gen: "generate_nodes 6 (sconst 0) = (?nodes, sconst 0)"
    by (simp add: generate_nodes_def randint_def upt_rec)
  have cnt: "selfish_count 6 30 = 1" by (simp add: selfish_count_def)
  have smp: "random_sample (map fst ?nodes) 1 (sconst 0) = Inr ([0], sconst 0)"
    by (simp add: random_sample_def randbelow_def)
  have mrk: "mark_selfish [0] ?nodes (sconst 0)
      = Inr ((0, \<lparr>x = 0, y = 0, power_pct = 70, trust = 20, selfish = True\<rparr>) # tl ?nodes, sconst 0)"
    by (simp add: getitem_def randint_def)
  have "assign_selfish 6 30 ?nodes (sconst 0)
      = Inr ([0], (0, \<lparr>x = 0, y = 0, power_pct = 70, trust = 20, selfish = True\<rparr>) # tl ?nodes,
             sconst 0)"
    unfolding assign_selfish_def cnt smp using mrk by simp
  then have "map_sum id (length \<circ> selfish_list \<circ> fst \<circ> snd)
     (assign_selfish 6 30 (fst (generate_nodes 6 (sconst 0))) (snd (generate_nodes 6 (sconst 0))))
     = Inr 1"
    unfolding gen by (simp add: selfish_list_def)
  moreover have "round (6 * 30 / 100 :: real) = 2"
    by (simp add: round_def)
  ultimately show ?thesis by simp
qed

text \<open>
  Claim C7, amended: after selfish assignment exactly
  \<open>floor(num_nodes * selfish_ratio / 100)\<close> nodes have the selfish flag set, and they are
  the sampled ids, each once.
\<close>

theorem selfish_total:
  assumes "0 \<le> n" and "0 \<le> r" and "r \<le> 100"
    and gen: "generate_nodes n g0 = (nodes0, g1)"
  shows "\<exists>sel nodes' g2.
           assign_selfish n r nodes0 g1 = Inr (sel, nodes', g2)
         \<and> int (length (selfish_list nodes')) = n * r div 100
         \<and> distinct (selfish_list nodes')
         \<and> set (selfish_list nodes') = set sel"
proof -
  have n0: "nodes0 = fst (generate_nodes n g0)" using gen by simp
  from assign_selfish_generated[OF assms(1-3), of g0 g1] obtain sel nodes' where
    as: "assign_selfish n r nodes0 g1 = Inr (sel, nodes', sdrop (length sel) (sdrop (length sel) g1))"
    and len: "int (length sel) = n * r div 100" and d: "distinct sel"
    and sub: "set sel \<subseteq> {0..<nat n}"
    and keys: "map fst nodes' = [0..<nat n]"
    and each: "\<forall>i<nat n. \<exists>nd. map_of nodes' i = Some nd \<and>
               (if i \<in> set sel then selfish nd \<and> 20 \<le> trust nd \<and> trust nd \<le> 60
                else \<not> selfish nd \<and> trust nd = 100)"
    unfolding n0 by blast
  have sl: "selfish_list nodes' = filter (\<lambda>k. k \<in> set sel) [0..<nat n]"
    using keys each by (rule selfish_list_marked)
  have "length (selfish_list nodes') = length sel"
    unfolding sl using d sub by (intro length_filter_mem) simp_all
  moreover have "distinct (selfish_list nodes')" unfolding sl by simp
  moreover have "set (selfish_list nodes') = set sel" unfolding sl using sub by auto
  ultimately show ?thesis using as len by auto
qed

theorem selfish_total_witness:
  "(0::int) \<le> 6 \<and> (0::int) \<le> 30 \<and> (30::int) \<le> 100
   \<and> (\<exists>sel nodes' g2.
         assign_selfish 6 30 (fst (generate_nodes 6 (sconst 0))) (snd (generate_nodes 6 (sconst 0)))
           = Inr (sel, nodes', g2)
       \<and> length (selfish_list nodes') = 1)"
proof -
  have gen: "generate_nodes 6 (sconst 0)
      = (fst (generate_nodes 6 (sconst 0)), snd (generate_nodes 6 (sconst 0)))"
    by simp
  have h: "(0::int) \<le> 6" "(0::int) \<le> 30" "(30::int) \<le> 100" by simp_all
  from selfish_total[OF h gen] show ?thesis by auto
qed

text \<open>
  Claim C10. For \<open>num_nodes\<close> in \<open>[5, 50]\<close> and \<open>selfish_ratio\<close> in \<open>[0, 80]\<close> the count
  \<open>int(num_nodes * selfish_ratio / 100)\<close> lies between 0 and \<open>num_nodes\<close>, so
  \<open>random.sample\<close> does not raise and selfish assignment returns.
\<close>

theorem sampling_cannot_fail:
  assumes "5 \<le> n" and "n \<le> 50" and "0 \<le> r" and "r \<le> 80"
  shows "0 \<le> selfish_count n r \<and> selfish_count n r \<le> n
       \<and> (\<exists>s. random_sample (map fst (fst (generate_nodes n g0))) (selfish_count n r) g = Inr s)
       \<and> (\<exists>s. assign_selfish n r (fst (generate_nodes n g0)) g = Inr s)"
proof -
  have n: "0 \<le> n" and r: "r \<le> 100" using assms by simp_all
  from selfish_count_bounds[OF n assms(3) r]
  have c: "0 \<le> selfish_count n r" "selfish_count n r \<le> n" by simp_all
  then have "\<exists>s. random_sample (map fst (fst (generate_nodes n g0))) (selfish_count n r) g = Inr s"
    using n by (simp add: random_sample_def generate_nodes_keys)
  moreover from assign_selfish_generated[OF n assms(3) r, of g0 g]
  have "\<exists>s. assign_selfish n r (fst (generate_nodes n g0)) g = Inr s" by blast
  ultimately show ?thesis using c by blast
qed

theorem sampling_cannot_fail_witness:
  "(5::int) \<le> 5 \<and> (5::int) \<le> 50 \<and> (0::int) \<le> 80 \<and> (80::int) \<le> 80
   \<and> selfish_count 5 80 = 4
   \<and> (\<exists>s. random_sample (map fst (fst (generate_nodes 5 (sconst 0)))) (selfish_count 5 80)
            (snd (generate_nodes 5 (sconst 0))) = Inr s)"
proof -
  have h: "(5::int) \<le> 5" "(5::int) \<le> 50" "(0::int) \<le> 80" "(80::int) \<le> 80" by simp_all
  have "selfish_count 5 80 = 4" by (simp add: selfish_count_def)
  with sampling_cannot_fail[OF h, of "sconst 0" "snd (generate_nodes 5 (sconst 0))"]
  show ?thesis by simp
qed

subsection \<open>Topology\<close>

lemma math_dist_commute: "math_dist p q = math_dist q p"
  by (simp add: math_dist_def power2_commute)

lemma wanted_commute: "wanted nodes tx mr mc i j = wanted nodes tx mr mc j i"
  by (auto simp: wanted_def math_dist_commute Let_def split: option.splits)

lemma map_of_add_node:
  "map_of (add_node G u) = (if has_node G u then map_of G else (map_of G)(u \<mapsto> []))"
  by (simp add: add_node_def update_conv')

lemma adj_add_node: "adj (add_node G u) p = adj G p"
  by (auto simp: adj_def map_of_add_node has_node_def split: option.splits)

lemma has_node_add_node: "has_node (add_node G u) p \<longleftrightarrow> p = u \<or> has_node G p"
  by (auto simp: has_node_def map_of_add_node)

lemma adj_add_edge:
  "adj (add_edge G u v a) p =
     (if p = v then AList.update u a (if u = v then AList.update v a (adj G u) else adj G v)
      else if p = u then AList.update v a (adj G u)
      else adj G p)"
  by (auto simp: add_edge_def Let_def adj_def update_conv' map_of_add_node has_node_def
      split: option.splits)

lemma edge_add_edge:
  "edge (add_edge G u v a) p q =
     (if (p = u \<and> q = v) \<or> (p = v \<and> q = u) then Some a else edge G p q)"
  by (auto simp: edge_def adj_add_edge update_conv')

lemma has_node_add_edge:
  "has_node (add_edge G u v a) p \<longleftrightarrow> p = u \<or> p = v \<or> has_node G p"
  by (auto simp: add_edge_def Let_def has_node_def update_conv' map_of_add_node)

lemma graph_ok_add_edge: "graph_ok G \<Longrightarrow> graph_ok (add_edge G u v a)"
  unfolding graph_ok_def by (auto simp: has_node_add_edge edge_add_edge)

lemma graph_ok_empty: "graph_ok []"
  by (simp add: graph_ok_def has_node_def edge_def adj_def)

lemma link_step:
  assumes "map_of nodes i \<noteq> None" "map_of nodes j \<noteq> None"
  shows "link nodes tx mr mc i j G =
           Inr (case wanted nodes tx mr mc i j of None \<Rightarrow> G | Some a \<Rightarrow> add_edge G i j a)"
  using assms by (auto simp: link_def wanted_def getitem_def Let_def)

lemma if_chain:
  assumes "e2 = (if B then w else e1)" "e1 = (if A then w else e0)" "C \<longleftrightarrow> A \<or> B"
  shows "e2 = (if C then w else e0)"
  using assms by auto

lemma inner_loop:
  assumes "map_of nodes i \<noteq> None" "\<forall>j\<in>set js. map_of nodes j \<noteq> None"
  shows "\<exists>G'. for_each js (link nodes tx mr mc i) G = Inr G'
            \<and> (graph_ok G \<longrightarrow> graph_ok G')
            \<and> (\<forall>p q. edge G' p q =
                  (if ((p = i \<and> q \<in> set js) \<or> (q = i \<and> p \<in> set js))
                      \<and> wanted nodes tx mr mc p q \<noteq> None
                   then wanted nodes tx mr mc p q else edge G p q))"
  using assms(2)
proof (induction js arbitrary: G)
  case Nil
  then show ?case by simp
next
  case (Cons j js)
  let ?W = "wanted nodes tx mr mc"
  let ?G1 = "case ?W i j of None \<Rightarrow> G | Some a \<Rightarrow> add_edge G i j a"
  have st: "link nodes tx mr mc i j G = Inr ?G1"
    using assms(1) Cons.prems by (simp add: link_step)
  have ok1: "graph_ok G \<longrightarrow> graph_ok ?G1"
    by (auto simp: graph_ok_add_edge split: option.splits)
  have e1: "edge ?G1 p q =
      (if ((p = i \<and> q = j) \<or> (q = i \<and> p = j)) \<and> ?W p q \<noteq> None
       then ?W p q else edge G p q)" for p q
  proof (cases "?W i j")
    case None
    then have "?W j i = None" by (simp add: wanted_commute)
    with None show ?thesis by auto
  next
    case (Some a)
    then have "?W j i = Some a" by (simp add: wanted_commute)
    with Some show ?thesis by (auto simp: edge_add_edge)
  qed
  from Cons.prems have "\<forall>j\<in>set js. map_of nodes j \<noteq> None" by simp
  from Cons.IH[OF this, of ?G1] obtain G' where
    G': "for_each js (link nodes tx mr mc i) ?G1 = Inr G'"
      "graph_ok ?G1 \<longrightarrow> graph_ok G'"
      "\<And>p q. edge G' p q =
          (if ((p = i \<and> q \<in> set js) \<or> (q = i \<and> p \<in> set js)) \<and> ?W p q \<noteq> None
           then ?W p q else edge ?G1 p q)"
    by blast
  have "for_each (j # js) (link nodes tx mr mc i) G = Inr G'"
    using st G'(1) by simp
  moreover have "graph_ok G \<longrightarrow> graph_ok G'" using ok1 G'(2) by blast
  moreover have "edge G' p q =
      (if ((p = i \<and> q \<in> set (j # js)) \<or> (q = i \<and> p \<in> set (j # js))) \<and> ?W p q \<noteq> None
       then ?W p q else edge G p q)" for p q
    by (rule if_chain[OF G'(3) e1]) auto
  ultimately show ?case by blast
qed

lemma outer_loop:
  assumes keys: "\<forall>j\<in>set ks. map_of nodes j \<noteq> None" and "\<forall>i\<in>set is. map_of nodes i \<noteq> None"
  shows "\<exists>G'. for_each is (\<lambda>i. for_each ks (link nodes tx mr mc i)) G = Inr G'
            \<and> (graph_ok G \<longrightarrow> graph_ok G')
            \<and> (\<forall>p q. edge G' p q =
                  (if ((p \<in> set is \<and> q \<in> set ks) \<or> (q \<in> set is \<and> p \<in> set ks))
                      \<and> wanted nodes tx mr mc p q \<noteq> None
                   then wanted nodes tx mr mc p q else edge G p q))"
  using assms(2)
proof (induction "is" arbitrary: G)
  case Nil
  then show ?case by simp
next
  case (Cons i "is")
  let ?W = "wanted nodes tx mr mc"
  from Cons.prems have i: "map_of nodes i \<noteq> None" by simp
  from inner_loop[OF i keys, of tx mr mc G] obtain G1 where
    G1: "for_each ks (link nodes tx mr mc i) G = Inr G1"
      "graph_ok G \<longrightarrow> graph_ok G1"
      "\<And>p q. edge G1 p q =
          (if ((p = i \<and> q \<in> set ks) \<or> (q = i \<and> p \<in> set ks)) \<and> ?W p q \<noteq> None
           then ?W p q else edge G p q)"
    by blast
  from Cons.prems have "\<forall>i\<in>set is. map_of nodes i \<noteq> None" by simp
  from Cons.IH[OF this, of G1] obtain G' where
    G': "for_each is (\<lambda>i. for_each ks (link nodes tx mr mc i)) G1 = Inr G'"
      "graph_ok G1 \<longrightarrow> graph_ok G'"
      "\<And>p q. edge G' p q =
          (if ((p \<in> set is \<and> q \<in> set ks) \<or> (q \<in> set is \<and> p \<in> set ks)) \<and> ?W p q \<noteq> None
           then ?W p q else edge G1 p q)"
    by blast
  have "for_each (i # is) (\<lambda>i. for_each ks (link nodes tx mr mc i)) G = Inr G'"
    using G1(1) G'(1) by simp
  moreover have "graph_ok G \<longrightarrow> graph_ok G'" using G1(2) G'(2) by blast
  moreover have "edge G' p q =
      (if ((p \<in> set (i # is) \<and> q \<in> set ks) \<or> (q \<in> set (i # is) \<and> p \<in> set ks))
          \<and> ?W p q \<noteq> None
       then ?W p q else edge G p q)" for p q
    by (rule if_chain[OF G'(3) G1(3)]) auto
  ultimately show ?case by blast
qed

lemma keys_present: "\<forall>k\<in>set (map fst al). map_of al k \<noteq> None"
  by (auto simp: map_of_eq_None_iff)

lemma wanted_Some:
  "wanted nodes tx mr mc p q = Some a \<Longrightarrow> map_of nodes p \<noteq> None \<and> map_of nodes q \<noteq> None"
  by (auto simp: wanted_def split: option.splits)

lemma build_links_edges:
  "\<exists>G. build_links nodes tx mr mc = Inr G \<and> graph_ok G
      \<and> (\<forall>p q. edge G p q = wanted nodes tx mr mc p q)"
proof -
  from outer_loop[OF keys_present keys_present, of nodes tx mr mc "[]"] obtain G where
    G: "build_links nodes tx mr mc = Inr G" "graph_ok G"
      "\<forall>p q. edge G p q =
          (if ((p \<in> set (map fst nodes) \<and> q \<in> set (map fst nodes))
               \<or> (q \<in> set (map fst nodes) \<and> p \<in> set (map fst nodes)))
              \<and> wanted nodes tx mr mc p q \<noteq> None
           then wanted nodes tx mr mc p q else edge [] p q)"
    unfolding build_links_def using graph_ok_empty by blast
  have "edge G p q = wanted nodes tx mr mc p q" for p q
  proof (cases "wanted nodes tx mr mc p q")
    case None
    then show ?thesis using G(3) by (simp add: edge_def adj_def)
  next
    case (Some a)
    then have "map_of nodes p \<noteq> None" "map_of nodes q \<noteq> None"
      using wanted_Some by blast+
    then have "p \<in> set (map fst nodes)" "q \<in> set (map fst nodes)"
      by (auto simp: map_of_eq_None_iff)
    then show ?thesis using G(3) Some by simp
  qed
  with G(1,2) show ?thesis by blast
qed

lemma math_dist_le_iff:
  assumes "0 \<le> t"
  shows "math_dist p q \<le> real_of_int t \<longleftrightarrow> (fst p - fst q)\<^sup>2 + (snd p - snd q)\<^sup>2 \<le> t\<^sup>2"
proof -
  let ?n = "(fst p - fst q)\<^sup>2 + (snd p - snd q)\<^sup>2"
  have "sqrt (real_of_int ?n) \<le> real_of_int t \<longleftrightarrow> sqrt (real_of_int ?n) \<le> sqrt ((real_of_int t)\<^sup>2)"
    using assms by simp
  also have "\<dots> \<longleftrightarrow> real_of_int ?n \<le> (real_of_int t)\<^sup>2"
    by (rule real_sqrt_le_iff)
  also have "\<dots> \<longleftrightarrow> real_of_int ?n \<le> real_of_int (t\<^sup>2)" by simp
  also have "\<dots> \<longleftrightarrow> ?n \<le> t\<^sup>2" by (rule of_int_le_iff)
  finally show ?thesis by (simp add: math_dist_def)
qed

lemma math_dist_le_numeral:
  "math_dist p q \<le> numeral k \<longleftrightarrow> (fst p - fst q)\<^sup>2 + (snd p - snd q)\<^sup>2 \<le> (numeral k)\<^sup>2"
  using math_dist_le_iff[of "numeral k" p q] by simp

lemma math_dist_demo: "math_dist (0, 0) (100, 0) = 100" "math_dist (100, 0) (0, 0) = 100"
  by (simp_all add: math_dist_def)

lemma build_demo: "build_links demo_nodes 150 False False = Inr demo_graph"
  by (simp add: build_links_def demo_nodes_def demo_graph_def link_def getitem_def Let_def
      math_dist_le_numeral math_dist_demo link_capacity_def add_edge_def add_node_def
      has_node_def adj_def)

lemma link_capacity_eq:
  "link_capacity d mr mc =
     max 1 (100 - \<lfloor>d / 3\<rfloor>) + (if mr then 20 else 0) + (if mc then 15 else 0)"
  by (simp add: link_capacity_def Let_def)

lemma wanted_Some_iff:
  assumes "map_of nodes i = Some ni" "map_of nodes j = Some nj"
  shows "wanted nodes tx mr mc i j =
           (if i \<noteq> j \<and> math_dist (x ni, y ni) (x nj, y nj) \<le> real_of_int tx
            then Some \<lparr>weight = math_dist (x ni, y ni) (x nj, y nj),
                       capacity = link_capacity (math_dist (x ni, y ni) (x nj, y nj)) mr mc\<rparr>
            else None)"
  using assms by (simp add: wanted_def Let_def)

lemma wanted_irrefl: "wanted nodes tx mr mc i i = None"
  by (simp add: wanted_def Let_def split: option.splits)

lemma is_path_reach: "is_path G p \<Longrightarrow> (hd p, last p) \<in> {(u, v). edge G u v \<noteq> None}\<^sup>*"
proof (induction G p rule: is_path.induct)
  case (3 G u v rest)
  then have "(u, v) \<in> {(u, v). edge G u v \<noteq> None}" by simp
  moreover have "(v, last (v # rest)) \<in> {(u, v). edge G u v \<noteq> None}\<^sup>*"
    using 3 by simp
  ultimately show ?case by (simp add: converse_rtrancl_into_rtrancl)
qed simp_all

lemma build_links_ok:
  assumes "build_links nodes tx mr mc = Inr G"
  shows "graph_ok G"
  using build_links_edges[of nodes tx mr mc] assms by auto

lemma demo_graph_edges:
  "edge demo_graph u v \<noteq> None \<longleftrightarrow> (u = 0 \<and> v = 1) \<or> (u = 1 \<and> v = 0)"
  by (auto simp: demo_graph_def edge_def adj_def split: if_splits)

text \<open>
  Claim C1. The builder always returns a graph. For two distinct node ids \<open>i\<close> and \<open>j\<close>
  it holds the edge \<open>(i, j)\<close> exactly when their Euclidean distance is at most the
  transmission range, the edge is the same in both directions, its weight is that
  distance and its capacity is \<open>max(1, 100 - floor(distance / 3))\<close>, plus 20 with
  multi-radio and plus 15 with multi-channel, hence at least 1. The graph has no other
  edges.
\<close>

theorem topology_links:
  "\<exists>G. build_links nodes tx mr mc = Inr G
     \<and> (\<forall>i j ni nj. map_of nodes i = Some ni \<and> map_of nodes j = Some nj \<and> i \<noteq> j \<longrightarrow>
           (edge G i j \<noteq> None \<longleftrightarrow> math_dist (x ni, y ni) (x nj, y nj) \<le> real_of_int tx)
         \<and> edge G j i = edge G i j
         \<and> (\<forall>a. edge G i j = Some a \<longrightarrow>
               weight a = math_dist (x ni, y ni) (x nj, y nj)
             \<and> capacity a = max 1 (100 - \<lfloor>math_dist (x ni, y ni) (x nj, y nj) / 3\<rfloor>)
                            + (if mr then 20 else 0) + (if mc then 15 else 0)
             \<and> 1 \<le> capacity a))
     \<and> (\<forall>p q. edge G p q \<noteq> None \<longrightarrow>
           p \<noteq> q \<and> map_of nodes p \<noteq> None \<and> map_of nodes q \<noteq> None)"
proof -
  from build_links_edges[of nodes tx mr mc] obtain G where
    G: "build_links nodes tx mr mc = Inr G"
    and e: "\<And>p q. edge G p q = wanted nodes tx mr mc p q"
    by blast
  have pair: "(edge G i j \<noteq> None \<longleftrightarrow> math_dist (x ni, y ni) (x nj, y nj) \<le> real_of_int tx)
         \<and> edge G j i = edge G i j
         \<and> (\<forall>a. edge G i j = Some a \<longrightarrow>
               weight a = math_dist (x ni, y ni) (x nj, y nj)
             \<and> capacity a = max 1 (100 - \<lfloor>math_dist (x ni, y ni) (x nj, y nj) / 3\<rfloor>)
                            + (if mr then 20 else 0) + (if mc then 15 else 0)
             \<and> 1 \<le> capacity a)"
    if "map_of nodes i = Some ni" "map_of nodes j = Some nj" "i \<noteq> j" for i j ni nj
  proof -
    have sym: "edge G j i = edge G i j"
      by (simp add: e wanted_commute[of nodes tx mr mc j i])
    show ?thesis
      using that sym by (auto simp: e wanted_Some_iff[OF that(1,2)] link_capacity_eq)
  qed
  have only: "p \<noteq> q \<and> map_of nodes p \<noteq> None \<and> map_of nodes q \<noteq> None"
    if "edge G p q \<noteq> None" for p q
  proof -
    from that obtain a where a: "wanted nodes tx mr mc p q = Some a" by (auto simp: e)
    then have "p \<noteq> q" using wanted_irrefl[of nodes tx mr mc p] by auto
    with wanted_Some[OF a] show ?thesis by simp
  qed
  from G pair only show ?thesis by blast
qed

theorem topology_links_witness:
  "map_of demo_nodes 0 = Some \<lparr>x = 0, y = 0, power_pct = 70, trust = 100, selfish = False\<rparr>
   \<and> map_of demo_nodes 1 = Some \<lparr>x = 100, y = 0, power_pct = 80, trust = 40, selfish = True\<rparr>
   \<and> (\<exists>G. build_links demo_nodes 150 False False = Inr G
        \<and> edge G 0 1 = Some \<lparr>weight = 100, capacity = 67\<rparr>
        \<and> edge G 1 0 = edge G 0 1)"
proof -
  let ?n0 = "\<lparr>x = 0, y = 0, power_pct = 70, trust = 100, selfish = False\<rparr>"
  let ?n1 = "\<lparr>x = 100, y = 0, power_pct = 80, trust = 40, selfish = True\<rparr>"
  have n0: "map_of demo_nodes 0 = Some ?n0" and n1: "map_of demo_nodes 1 = Some ?n1"
    by (simp_all add: demo_nodes_def)
  from topology_links[of demo_nodes 150 False False] obtain G where
    G: "build_links demo_nodes 150 False False = Inr G"
    and pr: "\<And>i j ni nj. map_of demo_nodes i = Some ni \<and> map_of demo_nodes j = Some nj \<and> i \<noteq> j \<Longrightarrow>
           (edge G i j \<noteq> None \<longleftrightarrow> math_dist (x ni, y ni) (x nj, y nj) \<le> real_of_int 150)
         \<and> edge G j i = edge G i j
         \<and> (\<forall>a. edge G i j = Some a \<longrightarrow>
               weight a = math_dist (x ni, y ni) (x nj, y nj)
             \<and> capacity a = max 1 (100 - \<lfloor>math_dist (x ni, y ni) (x nj, y nj) / 3\<rfloor>)
                            + (if False then 20 else 0) + (if False then 15 else 0)
             \<and> 1 \<le> capacity a)"
    by blast
  have "map_of demo_nodes 0 = Some ?n0 \<and> map_of demo_nodes 1 = Some ?n1 \<and> (0::nat) \<noteq> 1"
    using n0 n1 by simp
  from pr[OF this] have
    ex: "edge G 0 1 \<noteq> None" and sym: "edge G 1 0 = edge G 0 1"
    and at: "\<And>a. edge G 0 1 = Some a \<Longrightarrow> weight a = 100 \<and> capacity a = max 1 (100 - \<lfloor>100 / 3 :: real\<rfloor>)"
    by (simp_all add: math_dist_demo)
  from ex obtain a where a: "edge G 0 1 = Some a" by auto
  have fl: "\<lfloor>100 / 3 :: real\<rfloor> = 33" by linarith
  from at[OF a] have "a = \<lparr>weight = 100, capacity = 67\<rparr>"
    by (cases a) (simp add: fl)
  with a G sym n0 n1 show ?thesis by blast
qed

text \<open>
  Claim C4. On the graph of the builder, \<open>find_route\<close> returns \<open>None\<close> when no chain of
  edges joins \<open>src\<close> to \<open>dst\<close> and when \<open>src = dst\<close> has no incident edge, and it returns
  \<open>[src]\<close> when \<open>src = dst\<close> has an incident edge.
\<close>

theorem find_route_components:
  assumes "build_links nodes tx mr mc = Inr G"
  shows "((src, dst) \<notin> {(u, v). edge G u v \<noteq> None}\<^sup>* \<longrightarrow> find_route G src dst = None)
       \<and> ((\<forall>v. edge G src v = None) \<longrightarrow> find_route G src src = None)
       \<and> ((\<exists>v. edge G src v \<noteq> None) \<longrightarrow> find_route G src src = Some [src])"
proof -
  have ok: "has_node G src \<longleftrightarrow> (\<exists>v. edge G src v \<noteq> None)"
    using build_links_ok[OF assms] by (simp add: graph_ok_def)
  have apart: "find_route G src dst = None"
    if "(src, dst) \<notin> {(u, v). edge G u v \<noteq> None}\<^sup>*"
  proof (rule find_route_None)
    show "\<not> (\<exists>p. is_path G p \<and> hd p = src \<and> last p = dst)"
      using that is_path_reach by blast
  qed
  have lonely: "find_route G src src = None" if "\<forall>v. edge G src v = None"
    using that ok by (simp add: find_route_def nx_shortest_path_def)
  have self: "find_route G src src = Some [src]" if "\<exists>v. edge G src v \<noteq> None"
    using that ok by (simp add: find_route_def nx_shortest_path_def)
  from apart lonely self show ?thesis by blast
qed

theorem find_route_components_witness:
  "build_links demo_nodes 150 False False = Inr demo_graph
   \<and> (0, 2) \<notin> {(u, v). edge demo_graph u v \<noteq> None}\<^sup>*
   \<and> find_route demo_graph 0 2 = None
   \<and> (\<forall>v. edge demo_graph 2 v = None)
   \<and> find_route demo_graph 2 2 = None
   \<and> edge demo_graph 0 1 \<noteq> None
   \<and> find_route demo_graph 0 0 = Some [0]"
proof -
  have far: "(0, 2) \<notin> {(u, v). edge demo_graph u v \<noteq> None}\<^sup>*"
  proof
    assume "(0, 2) \<in> {(u, v). edge demo_graph u v \<noteq> None}\<^sup>*"
    then show False
    proof (cases rule: rtrancl.cases)
      case rtrancl_refl
      then show ?thesis by simp
    next
      case (rtrancl_into_rtrancl b)
      then have "edge demo_graph b 2 \<noteq> None" by simp
      then show ?thesis by (simp only: demo_graph_edges) simp
    qed
  qed
  have alone: "\<forall>v. edge demo_graph 2 v = None"
    using demo_graph_edges[of 2] by simp
  have linked: "edge demo_graph 0 1 \<noteq> None"
    by (simp add: demo_graph_def edge_def adj_def)
  from find_route_components[OF build_demo, of 0 2] far
  have r1: "find_route demo_graph 0 2 = None" by blast
  from find_route_components[OF build_demo, of 2 2] alone
  have r2: "find_route demo_graph 2 2 = None" by blast
  from find_route_components[OF build_demo, of 0 0] linked
  have r3: "find_route demo_graph 0 0 = Some [0]" by blast
  from build_demo far alone linked r1 r2 r3 show ?thesis by blast
qed

subsection \<open>Delivery\<close>



text \<open>
  Claim C3. On a route whose nodes are all cooperative, \<open>send_packet\<close> returns that route
  with the status "Delivered" whatever the draws are; it makes one draw per hop, and
  the power of every node of the route has gone down by an integer between 1 and 5.
\<close>

theorem honest_route_delivered:
  assumes route: "find_route (graph_of w) src dst = Some path"
    and honest: "\<forall>h\<in>set path. \<exists>nd. map_of (nodes_of w) h = Some nd \<and> \<not> selfish nd"
  shows "\<exists>w'. send_packet w src dst = Inr ((Some path, ''Delivered''), w')
            \<and> rng_of w' = sdrop (length path) (rng_of w)
            \<and> (\<forall>h\<in>set path. \<exists>nd nd'.
                   map_of (nodes_of w) h = Some nd \<and> map_of (nodes_of w') h = Some nd'
                   \<and> 1 \<le> power_pct nd - power_pct nd' \<and> power_pct nd - power_pct nd' \<le> 5)"
proof -
  from find_route_sound[OF route] have ne: "path \<noteq> []" and dist: "distinct path"
    by simp_all
  from walk_honest[OF honest] obtain nodes' where
    wk: "walk path (nodes_of w) (rng_of w) = Inr (Delivered, nodes', sdrop (length path) (rng_of w))"
    by blast
  let ?w' = "w\<lparr>nodes_of := nodes', rng_of := sdrop (length path) (rng_of w)\<rparr>"
  have sp: "send_packet w src dst = Inr ((Some path, ''Delivered''), ?w')"
    using route ne wk by (simp add: send_packet_def status_of_def)
  have "\<forall>h\<in>set path. \<exists>nd nd'.
          map_of (nodes_of w) h = Some nd \<and> map_of nodes' h = Some nd'
          \<and> 1 \<le> power_pct nd - power_pct nd' \<and> power_pct nd - power_pct nd' \<le> 5"
    using walk_power_step[OF wk dist _ honest] by blast
  with sp show ?thesis by simp
qed

theorem honest_route_delivered_witness:
  "find_route (graph_of honest_world) 0 1 = Some [0, 1]
   \<and> map_of (nodes_of honest_world) 0
       = Some \<lparr>x = 0, y = 0, power_pct = 70, trust = 100, selfish = False\<rparr>
   \<and> map_of (nodes_of honest_world) 1
       = Some \<lparr>x = 100, y = 0, power_pct = 80, trust = 100, selfish = False\<rparr>
   \<and> (\<exists>w' nd0 nd1. send_packet honest_world 0 1 = Inr ((Some [0, 1], ''Delivered''), w')
        \<and> map_of (nodes_of w') 0 = Some nd0 \<and> map_of (nodes_of w') 1 = Some nd1
        \<and> 1 \<le> 70 - power_pct nd0 \<and> 70 - power_pct nd0 \<le> 5
        \<and> 1 \<le> 80 - power_pct nd1 \<and> 80 - power_pct nd1 \<le> 5)"
proof -
  have route: "find_route (graph_of honest_world) 0 1 = Some [0, 1]"
    by (simp add: honest_world_def demo_graph_def find_route_def nx_shortest_path_def
        has_node_def routes_def node_sequences_def upt_rec edge_def adj_def)
  have n0: "map_of (nodes_of honest_world) 0
      = Some \<lparr>x = 0, y = 0, power_pct = 70, trust = 100, selfish = False\<rparr>"
    and n1: "map_of (nodes_of honest_world) 1
      = Some \<lparr>x = 100, y = 0, power_pct = 80, trust = 100, selfish = False\<rparr>"
    by (simp_all add: honest_world_def)
  have honest: "\<forall>h\<in>set [0, 1]. \<exists>nd. map_of (nodes_of honest_world) h = Some nd \<and> \<not> selfish nd"
    using n0 n1 by simp
  from honest_route_delivered[OF route honest] obtain w' where
    sp: "send_packet honest_world 0 1 = Inr ((Some [0, 1], ''Delivered''), w')"
    and pw: "\<forall>h\<in>set [0, 1]. \<exists>nd nd'.
               map_of (nodes_of honest_world) h = Some nd \<and> map_of (nodes_of w') h = Some nd'
               \<and> 1 \<le> power_pct nd - power_pct nd' \<and> power_pct nd - power_pct nd' \<le> 5"
    by blast
  from pw n0 obtain nd0 where
    "map_of (nodes_of w') 0 = Some nd0" "1 \<le> 70 - power_pct nd0" "70 - power_pct nd0 \<le> 5"
    by auto
  moreover from pw n1 obtain nd1 where
    "map_of (nodes_of w') 1 = Some nd1" "1 \<le> 80 - power_pct nd1" "80 - power_pct nd1 \<le> 5"
    by auto
  ultimately show ?thesis using route n0 n1 sp by blast
qed

text \<open>
  Claim C5. When the graph holds no path from \<open>src\<close> to \<open>dst\<close>, \<open>send_packet\<close> returns
  \<open>(None, "No Path Found")\<close> as a value, not as an exception, and the nodes, the graph and
  the generator are exactly as before.
\<close>

theorem no_path_found:
  assumes "\<not> (\<exists>p. is_path (graph_of w) p \<and> hd p = src \<and> last p = dst)"
  shows "send_packet w src dst = Inr ((None, ''No Path Found''), w)"
  using find_route_None[OF assms] by (simp add: send_packet_def)

theorem no_path_found_witness:
  "\<not> (\<exists>p. is_path (graph_of demo_world) p \<and> hd p = 0 \<and> last p = 2)
   \<and> send_packet demo_world 0 2 = Inr ((None, ''No Path Found''), demo_world)"
proof -
  have "\<not> has_node (graph_of demo_world) 2"
    by (simp add: demo_world_def demo_graph_def has_node_def)
  then have none: "\<not> (\<exists>p. is_path (graph_of demo_world) p \<and> hd p = 0 \<and> last p = 2)"
    by (auto dest: is_path_last)
  from no_path_found[OF none] none show ?thesis by simp
qed

text \<open>
  Claim C8. Whatever \<open>send_packet\<close> returns, the graph and the set of node ids are as
  before, every node keeps its position and its selfish flag, and a node that is not
  on the returned path keeps all its fields.
\<close>

theorem send_packet_frame:
  assumes "send_packet w src dst = Inr ((p, status), w')"
  shows "graph_of w' = graph_of w
       \<and> map fst (nodes_of w') = map fst (nodes_of w)
       \<and> (\<forall>k. rel_option same_fixed (map_of (nodes_of w) k) (map_of (nodes_of w') k))
       \<and> (\<forall>k. (\<forall>path. p = Some path \<longrightarrow> k \<notin> set path) \<longrightarrow>
               map_of (nodes_of w') k = map_of (nodes_of w) k)"
proof (cases "find_route (graph_of w) src dst")
  case None
  with assms have "w' = w" "p = None" by (simp_all add: send_packet_def)
  then show ?thesis by (simp add: option.rel_refl same_fixed_def)
next
  case (Some path)
  show ?thesis
  proof (cases "path = []")
    case True
    with Some assms have "w' = w" "p = None" by (simp_all add: send_packet_def)
    then show ?thesis by (simp add: option.rel_refl same_fixed_def)
  next
    case False
    with Some assms obtain e nodes' g' where
      wk: "walk path (nodes_of w) (rng_of w) = Inr (e, nodes', g')"
      and w': "w' = w\<lparr>nodes_of := nodes', rng_of := g'\<rparr>" and p: "p = Some path"
      by (auto simp: send_packet_def split: sum.splits)
    show ?thesis
      using walk_keys[OF wk] walk_fixed[OF wk] walk_off_path[OF wk] w' p by simp
  qed
qed

theorem send_packet_frame_witness:
  "send_packet demo_world 0 1
     = Inr ((Some [0, 1], ''Dropped by selfish node''),
            demo_world\<lparr>nodes_of := drop_trust 1 (drain_power 0 1 demo_nodes)\<rparr>)
   \<and> graph_of (demo_world\<lparr>nodes_of := drop_trust 1 (drain_power 0 1 demo_nodes)\<rparr>) = demo_graph
   \<and> map_of (drop_trust 1 (drain_power 0 1 demo_nodes)) 2 = map_of demo_nodes 2
   \<and> rel_option same_fixed (map_of demo_nodes 1)
        (map_of (drop_trust 1 (drain_power 0 1 demo_nodes)) 1)"
proof -
  have sp: "send_packet demo_world 0 1
     = Inr ((Some [0, 1], ''Dropped by selfish node''),
            demo_world\<lparr>nodes_of := drop_trust 1 (drain_power 0 1 demo_nodes)\<rparr>)"
    by (simp add: send_packet_def demo_world_def demo_graph_def demo_nodes_def
        find_route_def nx_shortest_path_def has_node_def routes_def node_sequences_def
        upt_rec edge_def adj_def getitem_def randint_def random_def status_of_def
        drain_power_def drop_trust_def)
  from send_packet_frame[OF sp] sp show ?thesis
    by (simp add: demo_world_def)
qed

subsection \<open>The mobility switch\<close>

text \<open>
  Claim C9. Two runs that differ only in the mobility flag, on the same random draws,
  give the same nodes, graph, source, destination, path and status (or the same error).
\<close>

theorem mobility_ignored:
  "run_simulation (cfg\<lparr>mobility := m\<rparr>) g = run_simulation cfg g"
  by (simp add: run_simulation_def cong: sum.case_cong prod.case_cong if_cong)

end
